theory Spec2Isabelle
  imports Main "HOL-Library.AList"
begin

section \<open>Keys and their canonical form\<close>

text \<open>
  The hook \<^verbatim>\<open>useCache<K, V>\<close> keeps its entries in a \<^verbatim>\<open>Map\<close> whose keys are
  \<^verbatim>\<open>getCacheKey(key) = JSON.stringify(key)\<close>.  The key type \<^verbatim>\<open>K\<close> is an unconstrained type
  parameter; \<open>jskey\<close> is the part of it that \<^verbatim>\<open>JSON.stringify\<close> serialises without
  raising: \<^verbatim>\<open>undefined\<close>, \<^verbatim>\<open>null\<close>, booleans, integral numbers (in the range printed in
  plain decimal), strings, arrays, and plain objects given by their own enumerable
  properties in enumeration order (property names distinct).
\<close>

datatype jskey =
    JUndefined
  | JNull
  | JBool bool
  | JNum int
  | JStr string
  | JArr "jskey list"
  | JObj "(string \<times> jskey) list"

definition hex_digit :: "nat \<Rightarrow> char" where
  "hex_digit n = ''0123456789abcdef'' ! (n mod 16)"

text \<open>
  \<^verbatim>\<open>QuoteJSONString\<close> of ECMAScript: the double quote (0x22) and the backslash (0x5C) are
  escaped, the control characters below 0x20 get their short escape or \<^verbatim>\<open>\u00XX\<close>,
  every other character is kept.  Strings are lists of 8-bit characters.
\<close>

definition quote_char :: "char \<Rightarrow> string" where
  "quote_char c =
     (if c = CHR 0x22 then [CHR 0x5C, CHR 0x22]
      else if c = CHR 0x5C then [CHR 0x5C, CHR 0x5C]
      else if c = CHR 0x08 then [CHR 0x5C, CHR ''b'']
      else if c = CHR 0x0C then [CHR 0x5C, CHR ''f'']
      else if c = CHR 0x0A then [CHR 0x5C, CHR ''n'']
      else if c = CHR 0x0D then [CHR 0x5C, CHR ''r'']
      else if c = CHR 0x09 then [CHR 0x5C, CHR ''t'']
      else if (of_char c :: nat) < 32
        then [CHR 0x5C, CHR ''u'', CHR ''0'', CHR ''0'',
              hex_digit (of_char c div 16), hex_digit (of_char c)]
      else [c])"

definition quoteJSONString :: "string \<Rightarrow> string" where
  "quoteJSONString s = [CHR 0x22] @ concat (map quote_char s) @ [CHR 0x22]"

function digits :: "nat \<Rightarrow> string" where
  "digits n = (if n < 10 then [hex_digit n] else digits (n div 10) @ [hex_digit (n mod 10)])"
  by pat_completeness auto
termination
  by (relation "measure id") auto

declare digits.simps [simp del]

definition numberToString :: "int \<Rightarrow> string" where
  "numberToString i = (if i < 0 then CHR ''-'' # digits (nat (- i)) else digits (nat i))"

fun join :: "string \<Rightarrow> string list \<Rightarrow> string" where
  "join sep [] = []"
| "join sep [x] = x"
| "join sep (x # y # ys) = x @ sep @ join sep (y # ys)"

text \<open>
  \<^verbatim>\<open>JSON.stringify\<close>.  The result \<open>None\<close> is JavaScript's \<^verbatim>\<open>undefined\<close>, which is what
  \<^verbatim>\<open>JSON.stringify(undefined)\<close> returns; inside an array \<^verbatim>\<open>undefined\<close> is written
  \<^verbatim>\<open>null\<close>, and a property whose value is \<^verbatim>\<open>undefined\<close> is left out of its object.
\<close>

fun stringify :: "jskey \<Rightarrow> string option" where
  "stringify JUndefined = None"
| "stringify JNull = Some ''null''"
| "stringify (JBool b) = Some (if b then ''true'' else ''false'')"
| "stringify (JNum i) = Some (numberToString i)"
| "stringify (JStr s) = Some (quoteJSONString s)"
| "stringify (JArr xs) =
     Some (''['' @ join '','' (map (\<lambda>x. case stringify x of None \<Rightarrow> ''null'' | Some s \<Rightarrow> s) xs)
           @ '']'')"
| "stringify (JObj ps) =
     Some (''{'' @ join '',''
             (concat (map (\<lambda>(n, x). case stringify x of None \<Rightarrow> []
                                      | Some s \<Rightarrow> [quoteJSONString n @ '':'' @ s]) ps))
           @ ''}'')"

text \<open>
  Semantic equality of keys, in the words of the specification: the same fields with
  the same values, whatever the order in which the properties were inserted.
\<close>

fun sem_eq :: "jskey \<Rightarrow> jskey \<Rightarrow> bool" where
  "sem_eq (JObj ps) (JObj qs) =
     ((\<forall>p \<in> set ps. \<exists>q \<in> set qs. fst p = fst q \<and> sem_eq (snd p) (snd q)) \<and>
      (\<forall>q \<in> set qs. \<exists>p \<in> set ps. fst p = fst q \<and> sem_eq (snd p) (snd q)))"
| "sem_eq (JArr xs) (JArr ys) = list_all2 sem_eq xs ys"
| "sem_eq a b = (a = b)"

section \<open>The cache\<close>

text \<open>
  \<^verbatim>\<open>type CacheEntry<V> = { value: V; expiresAt: number }\<close>.  Times are the integral
  milliseconds of \<^verbatim>\<open>Date.now()\<close>, and \<^verbatim>\<open>ttlMs\<close> and \<^verbatim>\<open>capacity\<close> are integers, as the
  specification has them.
\<close>

record 'v CacheEntry =
  val :: 'v
  expiresAt :: int

text \<open>
  The key of the \<^verbatim>\<open>Map\<close>: the result of \<^verbatim>\<open>JSON.stringify\<close>, a string or (\<open>None\<close>)
  \<^verbatim>\<open>undefined\<close>.
\<close>

type_synonym ckey = "string option"

text \<open>
  The closure that \<^verbatim>\<open>useCache\<close> returns: the two parameters \<^verbatim>\<open>ttlMs\<close> and \<^verbatim>\<open>capacity\<close>
  and the \<^verbatim>\<open>Map\<close> held by \<^verbatim>\<open>cacheRef.current\<close>.  A JavaScript \<^verbatim>\<open>Map\<close> iterates in insertion
  order, so it is an association list: \<^verbatim>\<open>Map.get\<close> is \<^const>\<open>map_of\<close>, \<^verbatim>\<open>Map.set\<close> is
  \<^const>\<open>AList.update\<close> (a present key keeps its place, a new key goes to the end),
  \<^verbatim>\<open>Map.delete\<close> is \<^const>\<open>AList.delete\<close>, \<^verbatim>\<open>Map.size\<close> is \<^const>\<open>length\<close>.
\<close>

record 'v Cache =
  ttlMs :: int
  capacity :: int
  cacheRef :: "(ckey \<times> 'v CacheEntry) list"

record UseCacheConfig =
  ttlMs_opt :: "int option"
  capacity_opt :: "int option"

definition useCache :: "UseCacheConfig \<Rightarrow> 'v Cache" where
  "useCache config =
     \<lparr> ttlMs = (case ttlMs_opt config of None \<Rightarrow> 5 * 60 * 1000 | Some t \<Rightarrow> t),
       capacity = (case capacity_opt config of None \<Rightarrow> 100 | Some n \<Rightarrow> n),
       cacheRef = [] \<rparr>"

text \<open>A \<^verbatim>\<open>Map\<close> holds each key once.\<close>

definition wf_cache :: "'v Cache \<Rightarrow> bool" where
  "wf_cache c = distinct (map fst (cacheRef c))"

text \<open>
  Every call of \<^verbatim>\<open>now()\<close> reads the clock; the reading is an argument of the function
  that makes the call.
\<close>

definition isExpired :: "int \<Rightarrow> 'v CacheEntry \<Rightarrow> bool" where
  "isExpired now entry = (expiresAt entry \<le> now)"

definition getCacheKey :: "jskey \<Rightarrow> ckey" where
  "getCacheKey key = stringify key"

definition getCacheEntry :: "int \<Rightarrow> 'v Cache \<Rightarrow> 'v \<Rightarrow> 'v CacheEntry" where
  "getCacheEntry now c v = \<lparr> val = v, expiresAt = now + ttlMs c \<rparr>"

text \<open>The loop of \<^verbatim>\<open>pruneExpiredEntries\<close>: it visits the entries and deletes from the map.\<close>

fun prune_loop ::
  "int \<Rightarrow> (ckey \<times> 'v CacheEntry) list \<Rightarrow> (ckey \<times> 'v CacheEntry) list \<Rightarrow> (ckey \<times> 'v CacheEntry) list"
where
  "prune_loop time [] cache = cache"
| "prune_loop time ((key, entry) # rest) cache =
     prune_loop time rest (if expiresAt entry \<le> time then AList.delete key cache else cache)"

definition pruneExpiredEntries :: "int \<Rightarrow> 'v Cache \<Rightarrow> 'v Cache" where
  "pruneExpiredEntries now c = c\<lparr> cacheRef := prune_loop now (cacheRef c) (cacheRef c) \<rparr>"

text \<open>
  The loop of \<^verbatim>\<open>evictEntryIfOverCapacity\<close>.  Its state is \<^verbatim>\<open>soonestKey\<close> (\<open>None\<close> is
  \<^verbatim>\<open>null\<close>) and \<^verbatim>\<open>soonestExpiry\<close> (\<open>None\<close> is \<^verbatim>\<open>Infinity\<close>).
\<close>

definition lt_expiry :: "int \<Rightarrow> int option \<Rightarrow> bool" where
  "lt_expiry e soonestExpiry = (case soonestExpiry of None \<Rightarrow> True | Some m \<Rightarrow> e < m)"

fun evict_loop ::
  "(ckey \<times> 'v CacheEntry) list \<Rightarrow> ckey option \<times> int option \<Rightarrow> ckey option \<times> int option"
where
  "evict_loop [] (soonestKey, soonestExpiry) = (soonestKey, soonestExpiry)"
| "evict_loop ((key, entry) # rest) (soonestKey, soonestExpiry) =
     (if lt_expiry (expiresAt entry) soonestExpiry
      then evict_loop rest (Some key, Some (expiresAt entry))
      else evict_loop rest (soonestKey, soonestExpiry))"

text \<open>
  The test \<^verbatim>\<open>if (soonestKey)\<close>: \<^verbatim>\<open>null\<close>, \<^verbatim>\<open>undefined\<close> and the empty string are falsy.
\<close>

fun truthy :: "ckey option \<Rightarrow> bool" where
  "truthy None = False"
| "truthy (Some None) = False"
| "truthy (Some (Some s)) = (s \<noteq> [])"

definition evictEntryIfOverCapacity :: "'v Cache \<Rightarrow> 'v Cache" where
  "evictEntryIfOverCapacity c =
     (if int (length (cacheRef c)) < capacity c then c
      else
        let soonestKey = fst (evict_loop (cacheRef c) (None, None)) in
        case soonestKey of
          None \<Rightarrow> c
        | Some key \<Rightarrow>
            if truthy soonestKey
            then c\<lparr> cacheRef := AList.delete key (cacheRef c) \<rparr>
            else c)"

text \<open>
  \<^verbatim>\<open>get\<close>, \<^verbatim>\<open>set\<close> and \<^verbatim>\<open>clear\<close>.  A result \<open>None\<close> of \<open>get_op\<close> is the \<^verbatim>\<open>undefined\<close> of the
  two early returns, \<open>Some v\<close> is \<^verbatim>\<open>return cacheEntry.value\<close>.  \<open>set_op\<close> reads the clock
  twice: \<open>tp\<close> in \<^verbatim>\<open>pruneExpiredEntries\<close> and \<open>ti\<close> in \<^verbatim>\<open>getCacheEntry\<close>.
\<close>

definition get_op :: "int \<Rightarrow> jskey \<Rightarrow> 'v Cache \<Rightarrow> 'v option \<times> 'v Cache" where
  "get_op now key c =
     (let cacheKey = getCacheKey key in
      case map_of (cacheRef c) cacheKey of
        None \<Rightarrow> (None, c)
      | Some cacheEntry \<Rightarrow>
          if isExpired now cacheEntry
          then (None, c\<lparr> cacheRef := AList.delete cacheKey (cacheRef c) \<rparr>)
          else (Some (val cacheEntry), c))"

definition set_op :: "int \<Rightarrow> int \<Rightarrow> jskey \<Rightarrow> 'v \<Rightarrow> 'v Cache \<Rightarrow> 'v Cache" where
  "set_op tp ti key v c =
     (let c1 = pruneExpiredEntries tp c;
          c2 = evictEntryIfOverCapacity c1;
          cacheKey = getCacheKey key;
          cacheEntry = getCacheEntry ti c2 v
      in c2\<lparr> cacheRef := AList.update cacheKey cacheEntry (cacheRef c2) \<rparr>)"

definition clear_op :: "'v Cache \<Rightarrow> 'v Cache" where
  "clear_op c = c\<lparr> cacheRef := [] \<rparr>"

text \<open>Sequences of calls on one cache.\<close>

datatype 'v call = Get jskey int | Set jskey 'v int int | Clear

fun step :: "'v call \<Rightarrow> 'v Cache \<Rightarrow> 'v Cache" where
  "step (Get key now) c = snd (get_op now key c)"
| "step (Set key v tp ti) c = set_op tp ti key v c"
| "step Clear c = clear_op c"

fun run :: "'v call list \<Rightarrow> 'v Cache \<Rightarrow> 'v Cache" where
  "run [] c = c"
| "run (x # xs) c = run xs (step x c)"


text \<open>A call whose key has a non-empty string as its canonical form.\<close>

fun string_keyed :: "'v call \<Rightarrow> bool" where
  "string_keyed (Get key now) = truthy (Some (getCacheKey key))"
| "string_keyed (Set key v tp ti) = truthy (Some (getCacheKey key))"
| "string_keyed Clear = True"

text \<open>
  The entry that capacity eviction is specified to pick: the first entry, in the
  iteration order of the map, whose \<^verbatim>\<open>expiresAt\<close> is smallest.
\<close>

definition soonest_entry :: "(ckey \<times> 'v CacheEntry) list \<Rightarrow> (ckey \<times> 'v CacheEntry) option" where
  "soonest_entry xs = find (\<lambda>p. \<forall>q \<in> set xs. expiresAt (snd p) \<le> expiresAt (snd q)) xs"

section \<open>Evaluating the model\<close>

lemma digits_small: "n < 10 \<Longrightarrow> digits n = [hex_digit n]"
  by (simp add: digits.simps)

lemma digits_nonempty: "digits n \<noteq> []"
  by (subst digits.simps) simp

lemma stringify_nonempty: "stringify key = Some s \<Longrightarrow> s \<noteq> []"
  by (cases key) (auto simp: numberToString_def quoteJSONString_def digits_nonempty split: if_splits)

lemmas eval_defs =
  useCache_def set_op_def get_op_def clear_op_def pruneExpiredEntries_def
  evictEntryIfOverCapacity_def getCacheKey_def getCacheEntry_def isExpired_def lt_expiry_def
  quoteJSONString_def quote_char_def numberToString_def hex_digit_def digits_small Let_def

section \<open>The configuration is never changed\<close>

lemma ttlMs_prune [simp]: "ttlMs (pruneExpiredEntries t c) = ttlMs c"
  by (simp add: pruneExpiredEntries_def)

lemma capacity_prune [simp]: "capacity (pruneExpiredEntries t c) = capacity c"
  by (simp add: pruneExpiredEntries_def)

lemma ttlMs_evict [simp]: "ttlMs (evictEntryIfOverCapacity c) = ttlMs c"
  by (simp add: evictEntryIfOverCapacity_def Let_def split: option.splits)

lemma capacity_evict [simp]: "capacity (evictEntryIfOverCapacity c) = capacity c"
  by (simp add: evictEntryIfOverCapacity_def Let_def split: option.splits)

lemma ttlMs_set_op [simp]: "ttlMs (set_op tp ti key v c) = ttlMs c"
  by (simp add: set_op_def Let_def)

lemma capacity_set_op [simp]: "capacity (set_op tp ti key v c) = capacity c"
  by (simp add: set_op_def Let_def)

lemma ttlMs_get_op [simp]: "ttlMs (snd (get_op now key c)) = ttlMs c"
  by (simp add: get_op_def Let_def split: option.splits)

lemma capacity_get_op [simp]: "capacity (snd (get_op now key c)) = capacity c"
  by (simp add: get_op_def Let_def split: option.splits)

lemma ttlMs_step [simp]: "ttlMs (step x c) = ttlMs c"
  by (cases x) (simp_all add: clear_op_def)

lemma capacity_step [simp]: "capacity (step x c) = capacity c"
  by (cases x) (simp_all add: clear_op_def)

lemma ttlMs_run [simp]: "ttlMs (run xs c) = ttlMs c"
  by (induction xs arbitrary: c) simp_all

lemma capacity_run [simp]: "capacity (run xs c) = capacity c"
  by (induction xs arbitrary: c) simp_all

section \<open>Reading and writing one key\<close>

lemma cacheRef_set_op:
  "cacheRef (set_op tp ti key v c) =
     AList.update (getCacheKey key) \<lparr> val = v, expiresAt = ti + ttlMs c \<rparr>
       (cacheRef (evictEntryIfOverCapacity (pruneExpiredEntries tp c)))"
  by (simp add: set_op_def Let_def getCacheEntry_def)

lemma lookup_set_op:
  "map_of (cacheRef (set_op tp ti key v c)) (getCacheKey key) =
     Some \<lparr> val = v, expiresAt = ti + ttlMs c \<rparr>"
  by (simp add: cacheRef_set_op update_conv')

lemma get_op_live:
  "map_of (cacheRef c) (getCacheKey key) = Some e \<Longrightarrow> now < expiresAt e \<Longrightarrow>
   get_op now key c = (Some (val e), c)"
  by (simp add: get_op_def isExpired_def)

lemma get_op_expired:
  "map_of (cacheRef c) (getCacheKey key) = Some e \<Longrightarrow> expiresAt e \<le> now \<Longrightarrow>
   get_op now key c = (None, c\<lparr> cacheRef := AList.delete (getCacheKey key) (cacheRef c) \<rparr>)"
  by (simp add: get_op_def isExpired_def)

text \<open>
  C2.  Round trip before expiry: with \<open>ttlMs > 0\<close>, a \<open>set\<close> of a key at time \<open>ti\<close>
  followed by a \<open>get\<close> of the same key at a time \<open>now\<close> with \<open>0 \<le> now - ti < ttlMs\<close>
  returns the value that was set, for every key, value and cache state.  The read leaves
  the cache as the write left it.
\<close>

theorem set_get_round_trip:
  assumes "0 < ttlMs c" and "ti \<le> now" and "now - ti < ttlMs c"
  shows "get_op now key (set_op tp ti key v c) = (Some v, set_op tp ti key v c)"
  using assms
    get_op_live [where c = "set_op tp ti key v c" and key = key and now = now, OF lookup_set_op]
  by simp

theorem set_get_round_trip_witness:
  "0 < ttlMs (useCache \<lparr> ttlMs_opt = Some 50, capacity_opt = None \<rparr> :: string Cache) \<and>
   (0 :: int) \<le> 10 \<and>
   (10 :: int) - 0 < ttlMs (useCache \<lparr> ttlMs_opt = Some 50, capacity_opt = None \<rparr> :: string Cache) \<and>
   fst (get_op 10 (JStr ''x'')
     (set_op 0 0 (JStr ''x'') ''v'' (useCache \<lparr> ttlMs_opt = Some 50, capacity_opt = None \<rparr>))) =
   Some ''v''"
  using set_get_round_trip [where c = "useCache \<lparr> ttlMs_opt = Some 50, capacity_opt = None \<rparr>"
      and ti = 0 and now = 10 and tp = 0 and key = "JStr ''x''" and v = "''v''"]
  by (simp add: useCache_def)

text \<open>
  C3.  Expiry: let \<open>set(key, v)\<close> run at time \<open>t\<close> on a cache with TTL \<open>ttlMs\<close>, and let \<open>c2\<close>
  be any later state in which the entry of the key is the one that \<open>set\<close> stored (no
  eviction and no overwrite of it in between).  Then \<open>get(key)\<close> at a time \<open>now \<ge> t + ttlMs\<close>
  returns absent and leaves no entry under the key, and \<open>get(key)\<close> at a time in
  \<open>[t, t + ttlMs)\<close> returns \<open>v\<close> and changes nothing.
\<close>

theorem get_after_set_expiry:
  assumes "c1 = set_op tp t key v c"
    and "map_of (cacheRef c2) (getCacheKey key) = map_of (cacheRef c1) (getCacheKey key)"
  shows "(t + ttlMs c \<le> now \<longrightarrow>
            fst (get_op now key c2) = None \<and>
            map_of (cacheRef (snd (get_op now key c2))) (getCacheKey key) = None) \<and>
         (t \<le> now \<and> now < t + ttlMs c \<longrightarrow> get_op now key c2 = (Some v, c2))"
proof -
  have e: "map_of (cacheRef c2) (getCacheKey key) = Some \<lparr> val = v, expiresAt = t + ttlMs c \<rparr>"
    using assms by (simp add: lookup_set_op)
  show ?thesis
    using get_op_live [OF e, of now] get_op_expired [OF e, of now]
    by (simp add: delete_conv')
qed

theorem get_after_set_expiry_witness:
  "fst (get_op 60 (JStr ''x'')
     (set_op 0 0 (JStr ''x'') ''v'' (useCache \<lparr> ttlMs_opt = Some 50, capacity_opt = None \<rparr>))) = None \<and>
   map_of (cacheRef (snd (get_op 60 (JStr ''x'')
     (set_op 0 0 (JStr ''x'') ''v'' (useCache \<lparr> ttlMs_opt = Some 50, capacity_opt = None \<rparr>)))))
     (getCacheKey (JStr ''x'')) = None \<and>
   fst (get_op 10 (JStr ''x'')
     (set_op 0 0 (JStr ''x'') ''v'' (useCache \<lparr> ttlMs_opt = Some 50, capacity_opt = None \<rparr>))) =
   Some ''v''"
  using
    get_after_set_expiry [where c = "useCache \<lparr> ttlMs_opt = Some 50, capacity_opt = None \<rparr>"
      and t = 0 and tp = 0 and key = "JStr ''x''" and v = "''v''" and now = 60, OF refl refl]
    get_after_set_expiry [where c = "useCache \<lparr> ttlMs_opt = Some 50, capacity_opt = None \<rparr>"
      and t = 0 and tp = 0 and key = "JStr ''x''" and v = "''v''" and now = 10, OF refl refl]
  by (simp add: useCache_def)

text \<open>
  C5.  \<open>clear\<close> is total and removes every entry: after it the map is empty, \<open>get\<close> of any
  key is absent, and a later \<open>set\<close> of a key followed by a \<open>get\<close> of it before its expiry
  returns the value set.
\<close>

theorem clear_removes_every_entry:
  "cacheRef (clear_op c) = [] \<and>
   get_op now key (clear_op c) = (None, clear_op c) \<and>
   (now' < ti + ttlMs c \<longrightarrow>
      fst (get_op now' key' (set_op tp ti key' v (clear_op c))) = Some v)"
proof -
  have "ttlMs (clear_op c) = ttlMs c" by (simp add: clear_op_def)
  then show ?thesis
    using get_op_live [where c = "set_op tp ti key' v (clear_op c)" and key = key' and now = now',
        OF lookup_set_op]
    by (simp add: clear_op_def get_op_def)
qed

theorem clear_removes_every_entry_witness:
  "cacheRef (clear_op (set_op 0 0 (JStr ''a'') (1 :: int)
      (useCache \<lparr> ttlMs_opt = None, capacity_opt = None \<rparr>))) = [] \<and>
   fst (get_op 5 (JStr ''a'') (clear_op (set_op 0 0 (JStr ''a'') (1 :: int)
      (useCache \<lparr> ttlMs_opt = None, capacity_opt = None \<rparr>)))) = None \<and>
   fst (get_op 20 (JStr ''a'') (set_op 10 10 (JStr ''a'') 2 (clear_op (set_op 0 0 (JStr ''a'') (1 :: int)
      (useCache \<lparr> ttlMs_opt = None, capacity_opt = None \<rparr>))))) = Some 2"
  using clear_removes_every_entry [where
      c = "set_op 0 0 (JStr ''a'') (1 :: int) (useCache \<lparr> ttlMs_opt = None, capacity_opt = None \<rparr>)"
      and now = 5 and key = "JStr ''a''" and now' = 20 and ti = 10 and tp = 10
      and key' = "JStr ''a''" and v = 2]
  by (simp add: useCache_def)

text \<open>
  C9.  \<open>get\<close> is a read: when the key has no entry, or a live one (\<open>expiresAt > now\<close>), the
  whole cache (every entry with its \<open>expiresAt\<close>, and the configuration) is unchanged;
  when its entry is expired, the entry under that key is deleted, and every other
  entry, their order, \<open>ttlMs\<close> and \<open>capacity\<close> are unchanged.
\<close>

theorem get_changes_only_expired_key:
  "(case map_of (cacheRef c) (getCacheKey key) of
      None \<Rightarrow> get_op now key c = (None, c)
    | Some e \<Rightarrow>
        if now < expiresAt e then get_op now key c = (Some (val e), c)
        else fst (get_op now key c) = None \<and>
             cacheRef (snd (get_op now key c)) =
               filter (\<lambda>p. fst p \<noteq> getCacheKey key) (cacheRef c) \<and>
             ttlMs (snd (get_op now key c)) = ttlMs c \<and>
             capacity (snd (get_op now key c)) = capacity c)"
  by (auto simp: get_op_def isExpired_def AList.delete_eq split: option.splits intro: filter_cong)

section \<open>The two loops of \<^verbatim>\<open>set\<close>\<close>

lemma prune_loop_filter:
  "prune_loop t xs m =
     filter (\<lambda>p. \<not> (\<exists>q \<in> set xs. fst q = fst p \<and> expiresAt (snd q) \<le> t)) m"
proof (induction xs arbitrary: m)
  case Nil
  then show ?case by simp
next
  case (Cons x xs)
  obtain k e where x: "x = (k, e)" by (cases x)
  show ?case
  proof (cases "expiresAt e \<le> t")
    case True
    then show ?thesis
      unfolding x by (auto simp: Cons.IH AList.delete_eq intro!: filter_cong)
  next
    case False
    then show ?thesis
      unfolding x by (simp add: Cons.IH)
  qed
qed

lemma prune_loop_distinct:
  assumes "distinct (map fst xs)"
  shows "prune_loop t xs xs = filter (\<lambda>p. t < expiresAt (snd p)) xs"
proof -
  have "(\<not> (\<exists>q \<in> set xs. fst q = fst p \<and> expiresAt (snd q) \<le> t)) \<longleftrightarrow> t < expiresAt (snd p)"
    if p: "p \<in> set xs" for p
  proof -
    have "q = p" if "q \<in> set xs" "fst q = fst p" for q
      using assms p that by (metis eq_key_imp_eq_value prod.collapse)
    with p show ?thesis by (auto simp: not_le)
  qed
  then show ?thesis
    unfolding prune_loop_filter by (intro filter_cong) auto
qed

lemma min_entry_exists:
  assumes "r \<in> set xs"
  shows "\<exists>p \<in> set xs. \<forall>q \<in> set xs. expiresAt (snd p) \<le> expiresAt (snd q)"
proof -
  let ?S = "(\<lambda>p. expiresAt (snd p)) ` set xs"
  from assms have "finite ?S" and "?S \<noteq> {}" by auto
  then have "Min ?S \<in> ?S" by (rule Min_in)
  then obtain p where p: "p \<in> set xs" "expiresAt (snd p) = Min ?S" by auto
  have "expiresAt (snd p) \<le> expiresAt (snd q)" if "q \<in> set xs" for q
    unfolding p(2) using that by (intro Min_le) auto
  with p(1) show ?thesis by blast
qed

lemma evict_loop_Some:
  fixes xs :: "(ckey \<times> 'v CacheEntry) list"
  shows "evict_loop xs (Some k, Some m) =
     (case find (\<lambda>p. expiresAt (snd p) < m \<and> (\<forall>q \<in> set xs. expiresAt (snd p) \<le> expiresAt (snd q))) xs of
        None \<Rightarrow> (Some k, Some m)
      | Some p \<Rightarrow> (Some (fst p), Some (expiresAt (snd p))))"
proof (induction xs arbitrary: k m)
  case Nil
  then show ?case by simp
next
  case (Cons x xs)
  obtain kx ex where x: "x = (kx, ex)" by (cases x)
  define A where "A = (\<lambda>b (p :: ckey \<times> 'v CacheEntry). expiresAt (snd p) < b \<and> (\<forall>q \<in> set xs. expiresAt (snd p) \<le> expiresAt (snd q)))"
  define B where "B = (\<lambda>(p :: ckey \<times> 'v CacheEntry). expiresAt (snd p) < m \<and> (\<forall>q \<in> set (x # xs). expiresAt (snd p) \<le> expiresAt (snd q)))"
  define R where "R = (\<lambda>(d :: ckey option \<times> int option) (r :: (ckey \<times> 'v CacheEntry) option). case r of None \<Rightarrow> d | Some p \<Rightarrow> (Some (fst p), Some (expiresAt (snd p))))"
  have IH: "evict_loop xs (Some k', Some m') = R (Some k', Some m') (find (A m') xs)" for k' m'
    unfolding R_def A_def by (rule Cons.IH)
  have res: "R (Some k, Some m) (find B (x # xs)) = evict_loop (x # xs) (Some k, Some m)"
  proof (cases "expiresAt ex < m")
    case True
    then have lhs: "evict_loop (x # xs) (Some k, Some m) = R (Some kx, Some (expiresAt ex)) (find (A (expiresAt ex)) xs)"
      unfolding x by (simp add: IH lt_expiry_def)
    show ?thesis
    proof (cases "\<forall>q \<in> set xs. expiresAt ex \<le> expiresAt (snd q)")
      case all: True
      then have "find (A (expiresAt ex)) xs = None"
        unfolding A_def by (auto simp: find_None_iff)
      moreover from True all have "B x"
        unfolding x B_def by simp
      ultimately show ?thesis
        unfolding lhs by (simp add: R_def x)
    next
      case False
      then obtain r where r: "r \<in> set xs" "expiresAt (snd r) < expiresAt ex" by force
      then have nb: "\<not> B x"
        unfolding x B_def by force
      have eq: "find (A (expiresAt ex)) xs = find B xs"
        using r True unfolding x A_def B_def by (intro find_cong) force+
      obtain p where p: "p \<in> set xs" "\<forall>q \<in> set xs. expiresAt (snd p) \<le> expiresAt (snd q)"
        using min_entry_exists [OF r(1)] by blast
      with r have "A (expiresAt ex) p" unfolding A_def by force
      with p(1) have "find (A (expiresAt ex)) xs \<noteq> None"
        unfolding find_None_iff by blast
      then obtain p' where p': "find B xs = Some p'" unfolding eq by auto
      show ?thesis
        unfolding lhs eq using nb by (simp add: p' R_def)
    qed
  next
    case False
    then have lhs: "evict_loop (x # xs) (Some k, Some m) = R (Some k, Some m) (find (A m) xs)"
      unfolding x by (simp add: IH lt_expiry_def)
    from False have nb: "\<not> B x"
      unfolding x B_def by simp
    have eq: "find (A m) xs = find B xs"
      using False unfolding x A_def B_def by (intro find_cong) force+
    show ?thesis
      unfolding lhs eq using nb by simp
  qed
  show ?case
    using res unfolding R_def B_def by simp
qed

lemma evict_loop_soonest:
  fixes xs :: "(ckey \<times> 'v CacheEntry) list"
  shows "fst (evict_loop xs (None, None)) = map_option fst (soonest_entry xs)"
proof (cases xs)
  case Nil
  then show ?thesis by (simp add: soonest_entry_def)
next
  case (Cons x ys)
  obtain kx ex where x: "x = (kx, ex)" by (cases x)
  define A where "A = (\<lambda>(p :: ckey \<times> 'v CacheEntry). expiresAt (snd p) < expiresAt ex \<and> (\<forall>q \<in> set ys. expiresAt (snd p) \<le> expiresAt (snd q)))"
  define B where "B = (\<lambda>(p :: ckey \<times> 'v CacheEntry). \<forall>q \<in> set (x # ys). expiresAt (snd p) \<le> expiresAt (snd q))"
  have spec: "soonest_entry xs = (if B x then Some x else find B ys)"
    unfolding Cons soonest_entry_def B_def by simp
  have loop: "fst (evict_loop xs (None, None)) =
                (case find A ys of None \<Rightarrow> Some kx | Some p \<Rightarrow> Some (fst p))"
    unfolding Cons x A_def by (simp add: evict_loop_Some lt_expiry_def split: option.splits)
  show ?thesis
  proof (cases "\<forall>q \<in> set ys. expiresAt ex \<le> expiresAt (snd q)")
    case all: True
    then have "find A ys = None"
      unfolding A_def by (auto simp: find_None_iff)
    moreover from all have "B x"
      unfolding x B_def by simp
    ultimately show ?thesis
      unfolding spec loop by (simp add: x)
  next
    case False
    then obtain r where r: "r \<in> set ys" "expiresAt (snd r) < expiresAt ex" by force
    then have nb: "\<not> B x"
      unfolding x B_def by force
    have eq: "find A ys = find B ys"
      using r unfolding x A_def B_def by (intro find_cong) force+
    obtain p where p: "p \<in> set ys" "\<forall>q \<in> set ys. expiresAt (snd p) \<le> expiresAt (snd q)"
      using min_entry_exists [OF r(1)] by blast
    with r have "A p" unfolding A_def by force
    with p(1) have "find A ys \<noteq> None"
      unfolding find_None_iff by blast
    then obtain p' where p': "find B ys = Some p'" unfolding eq by auto
    show ?thesis
      unfolding spec loop eq using nb by (simp add: p')
  qed
qed


section \<open>The map holds each key once\<close>

lemma wf_useCache: "wf_cache (useCache config)"
  by (simp add: wf_cache_def useCache_def)

lemma cacheRef_prune:
  "wf_cache c \<Longrightarrow>
   cacheRef (pruneExpiredEntries t c) = filter (\<lambda>p. t < expiresAt (snd p)) (cacheRef c)"
  by (simp add: pruneExpiredEntries_def wf_cache_def prune_loop_distinct)

lemma wf_prune: "wf_cache c \<Longrightarrow> wf_cache (pruneExpiredEntries t c)"
  by (simp add: pruneExpiredEntries_def wf_cache_def prune_loop_filter distinct_map_filter)

lemma wf_evict: "wf_cache c \<Longrightarrow> wf_cache (evictEntryIfOverCapacity c)"
  by (simp add: evictEntryIfOverCapacity_def wf_cache_def Let_def distinct_delete split: option.splits)

lemma wf_set_op: "wf_cache c \<Longrightarrow> wf_cache (set_op tp ti key v c)"
  using wf_evict [OF wf_prune, of c tp]
  by (simp add: wf_cache_def cacheRef_set_op distinct_update)

lemma wf_get_op: "wf_cache c \<Longrightarrow> wf_cache (snd (get_op now key c))"
  by (simp add: get_op_def wf_cache_def Let_def distinct_delete split: option.splits)

lemma wf_step: "wf_cache c \<Longrightarrow> wf_cache (step x c)"
  by (cases x) (simp_all add: wf_set_op wf_get_op, simp add: clear_op_def wf_cache_def)

lemma wf_run: "wf_cache c \<Longrightarrow> wf_cache (run xs c)"
  by (induction xs arbitrary: c) (simp_all add: wf_step)

section \<open>Capacity eviction\<close>

lemma delete_distinct:
  assumes "distinct (map fst xs)" and "(k, e) \<in> set xs"
  shows "AList.delete k xs = remove1 (k, e) xs"
  using assms
proof (induction xs)
  case Nil
  then show ?case by simp
next
  case (Cons x xs)
  show ?case
  proof (cases "fst x = k")
    case True
    with Cons.prems have "x = (k, e)" and "k \<notin> fst ` set xs"
      by (auto simp: image_iff)
    then show ?thesis by simp
  next
    case False
    with Cons show ?thesis by (cases x) auto
  qed
qed

lemma length_delete_distinct:
  assumes "distinct (map fst xs)" and "(k, e) \<in> set xs"
  shows "length (AList.delete k xs) + 1 = length xs"
proof -
  from assms(2) have "0 < length xs" by (cases xs) auto
  with assms(2) show ?thesis
    unfolding delete_distinct [OF assms] by (simp add: length_remove1)
qed

lemma soonest_entry_Some:
  "soonest_entry xs = Some p \<Longrightarrow>
   p \<in> set xs \<and> (\<forall>q \<in> set xs. expiresAt (snd p) \<le> expiresAt (snd q))"
  unfolding soonest_entry_def find_Some_iff by auto

lemma soonest_entry_exists: "xs \<noteq> [] \<Longrightarrow> \<exists>k e. soonest_entry xs = Some (k, e)"
proof -
  assume "xs \<noteq> []"
  then obtain r where "r \<in> set xs" by (cases xs) auto
  from min_entry_exists [OF this] have "soonest_entry xs \<noteq> None"
    unfolding soonest_entry_def find_None_iff by blast
  then show ?thesis by auto
qed

lemma evict_below: "int (length (cacheRef c)) < capacity c \<Longrightarrow> evictEntryIfOverCapacity c = c"
  by (simp add: evictEntryIfOverCapacity_def)

lemma evict_empty: "cacheRef c = [] \<Longrightarrow> evictEntryIfOverCapacity c = c"
  by (simp add: evictEntryIfOverCapacity_def)

lemma evict_full:
  assumes "capacity c \<le> int (length (cacheRef c))" and "soonest_entry (cacheRef c) = Some (k, e)"
    and "truthy (Some k)"
  shows "evictEntryIfOverCapacity c = c\<lparr> cacheRef := AList.delete k (cacheRef c) \<rparr>"
  using assms by (simp add: evictEntryIfOverCapacity_def evict_loop_soonest)

lemma evict_falsy:
  assumes "soonest_entry (cacheRef c) = Some (k, e)" and "\<not> truthy (Some k)"
  shows "evictEntryIfOverCapacity c = c"
  using assms by (simp add: evictEntryIfOverCapacity_def evict_loop_soonest)

text \<open>
  C4, as the code has it.  On a well-formed cache, \<open>set\<close> first deletes exactly the
  entries with \<open>expiresAt \<le> tp\<close> (\<open>P\<close> is the pruned cache); then (\<open>E\<close>), if fewer than
  \<open>capacity\<close> entries remain, or none remains, it deletes nothing; if at least \<open>capacity\<close>
  entries remain and the map is not empty, the entry \<open>soonest_entry\<close> (the first in
  iteration order among those with the smallest \<open>expiresAt\<close>) exists, and when its key
  is a non-empty string exactly that entry is deleted; last, the new entry is stored under
  the canonical key.
\<close>

theorem set_prunes_then_evicts:
  assumes "wf_cache c" and "P = pruneExpiredEntries tp c" and "E = evictEntryIfOverCapacity P"
  shows "cacheRef P = filter (\<lambda>p. tp < expiresAt (snd p)) (cacheRef c) \<and>
         (int (length (cacheRef P)) < capacity c \<longrightarrow> E = P) \<and>
         (cacheRef P = [] \<longrightarrow> E = P) \<and>
         (capacity c \<le> int (length (cacheRef P)) \<and> cacheRef P \<noteq> [] \<longrightarrow>
            (\<exists>k e. soonest_entry (cacheRef P) = Some (k, e) \<and>
               (truthy (Some k) \<longrightarrow>
                  cacheRef E = remove1 (k, e) (cacheRef P) \<and>
                  length (cacheRef E) + 1 = length (cacheRef P)))) \<and>
         set_op tp ti key v c =
           E\<lparr> cacheRef := AList.update (getCacheKey key) \<lparr> val = v, expiresAt = ti + ttlMs c \<rparr> (cacheRef E) \<rparr>"
proof -
  have wfP: "distinct (map fst (cacheRef P))"
    using assms(1,2) wf_prune [of c tp] by (simp add: wf_cache_def)
  have full: "\<exists>k e. soonest_entry (cacheRef P) = Some (k, e) \<and>
               (truthy (Some k) \<longrightarrow>
                  cacheRef E = remove1 (k, e) (cacheRef P) \<and>
                  length (cacheRef E) + 1 = length (cacheRef P))"
    if cap: "capacity c \<le> int (length (cacheRef P))" and ne: "cacheRef P \<noteq> []"
  proof -
    obtain k e where s: "soonest_entry (cacheRef P) = Some (k, e)"
      using soonest_entry_exists [OF ne] by blast
    then have mem: "(k, e) \<in> set (cacheRef P)"
      using soonest_entry_Some by blast
    have "cacheRef E = remove1 (k, e) (cacheRef P) \<and> length (cacheRef E) + 1 = length (cacheRef P)"
      if "truthy (Some k)"
    proof -
      have "capacity P \<le> int (length (cacheRef P))" using cap assms(2) by simp
      from evict_full [OF this s that] have "cacheRef E = AList.delete k (cacheRef P)"
        using assms(3) by simp
      with delete_distinct [OF wfP mem] length_delete_distinct [OF wfP mem] show ?thesis by simp
    qed
    with s show ?thesis by blast
  qed
  have below: "E = P" if "int (length (cacheRef P)) < capacity c"
    using that assms(2,3) by (simp add: evict_below)
  have empty: "E = P" if "cacheRef P = []"
    using that assms(3) by (simp add: evict_empty)
  have ins: "set_op tp ti key v c =
           E\<lparr> cacheRef := AList.update (getCacheKey key) \<lparr> val = v, expiresAt = ti + ttlMs c \<rparr> (cacheRef E) \<rparr>"
    using assms(2,3) by (simp add: set_op_def Let_def getCacheEntry_def)
  show ?thesis
    using cacheRef_prune [OF assms(1), of tp] assms(2) full below empty ins by blast
qed


theorem set_prunes_then_evicts_witness:
  "wf_cache (set_op 100 100 (JStr ''b'') 2 (set_op 0 0 (JStr ''a'') (1 :: int)
      (useCache \<lparr> ttlMs_opt = Some 1000, capacity_opt = Some 2 \<rparr>))) \<and>
   cacheRef (pruneExpiredEntries 200 (set_op 100 100 (JStr ''b'') 2 (set_op 0 0 (JStr ''a'') (1 :: int)
      (useCache \<lparr> ttlMs_opt = Some 1000, capacity_opt = Some 2 \<rparr>)))) =
     [(getCacheKey (JStr ''a''), \<lparr> val = 1, expiresAt = 1000 \<rparr>),
      (getCacheKey (JStr ''b''), \<lparr> val = 2, expiresAt = 1100 \<rparr>)] \<and>
   cacheRef (evictEntryIfOverCapacity (pruneExpiredEntries 200
      (set_op 100 100 (JStr ''b'') 2 (set_op 0 0 (JStr ''a'') (1 :: int)
      (useCache \<lparr> ttlMs_opt = Some 1000, capacity_opt = Some 2 \<rparr>))))) =
     [(getCacheKey (JStr ''b''), \<lparr> val = 2, expiresAt = 1100 \<rparr>)] \<and>
   cacheRef (set_op 200 200 (JStr ''c'') 3
      (set_op 100 100 (JStr ''b'') 2 (set_op 0 0 (JStr ''a'') (1 :: int)
      (useCache \<lparr> ttlMs_opt = Some 1000, capacity_opt = Some 2 \<rparr>)))) =
     [(getCacheKey (JStr ''b''), \<lparr> val = 2, expiresAt = 1100 \<rparr>),
      (getCacheKey (JStr ''c''), \<lparr> val = 3, expiresAt = 1200 \<rparr>)]"
  using set_prunes_then_evicts [where
      c = "set_op 100 100 (JStr ''b'') 2 (set_op 0 0 (JStr ''a'') (1 :: int)
            (useCache \<lparr> ttlMs_opt = Some 1000, capacity_opt = Some 2 \<rparr>))"
      and tp = 200 and ti = 200 and key = "JStr ''c''" and v = 3, OF _ refl refl]
  by (simp add: eval_defs wf_cache_def soonest_entry_def)

text \<open>
  The claim as the specification words it fails where nothing is left to delete: with
  capacity 0 and an empty map the entry count is not below the capacity, and no entry is
  deleted.
\<close>

theorem evict_on_empty_cache_counterexample:
  "capacity (pruneExpiredEntries 0 (useCache \<lparr> ttlMs_opt = None, capacity_opt = Some 0 \<rparr> :: int Cache))
     \<le> int (length (cacheRef (pruneExpiredEntries 0
          (useCache \<lparr> ttlMs_opt = None, capacity_opt = Some 0 \<rparr> :: int Cache)))) \<and>
   length (cacheRef (evictEntryIfOverCapacity (pruneExpiredEntries 0
     (useCache \<lparr> ttlMs_opt = None, capacity_opt = Some 0 \<rparr> :: int Cache)))) + 1 \<noteq>
   length (cacheRef (pruneExpiredEntries 0
     (useCache \<lparr> ttlMs_opt = None, capacity_opt = Some 0 \<rparr> :: int Cache)))"
  by (simp add: eval_defs)

section \<open>Overwriting a key\<close>

lemma length_update:
  "length (AList.update k v xs) = (if k \<in> fst ` set xs then length xs else length xs + 1)"
  by (induction xs) auto

lemma evict_cases:
  assumes "wf_cache c"
  shows "evictEntryIfOverCapacity c = c \<or>
         (\<exists>k e. (k, e) \<in> set (cacheRef c) \<and>
                evictEntryIfOverCapacity c = c\<lparr> cacheRef := AList.delete k (cacheRef c) \<rparr>)"
proof (cases "soonest_entry (cacheRef c)")
  case None
  then show ?thesis
    by (simp add: evictEntryIfOverCapacity_def evict_loop_soonest)
next
  case (Some p)
  obtain k e where p: "p = (k, e)" by (cases p)
  from Some have "(k, e) \<in> set (cacheRef c)"
    unfolding p using soonest_entry_Some by blast
  with Some show ?thesis
    unfolding p by (auto simp: evictEntryIfOverCapacity_def evict_loop_soonest)
qed

lemma prune_all_live:
  assumes "\<forall>p \<in> set (cacheRef c). t < expiresAt (snd p)"
  shows "pruneExpiredEntries t c = c"
proof -
  have "filter (\<lambda>p. \<not> (\<exists>q \<in> set (cacheRef c). fst q = fst p \<and> expiresAt (snd q) \<le> t)) (cacheRef c)
        = cacheRef c"
    using assms by (intro filter_True) force
  then show ?thesis
    by (simp add: pruneExpiredEntries_def prune_loop_filter)
qed

text \<open>
  C7, as the code has it.  Let \<open>c1\<close> be the cache after \<open>set(key, v1)\<close> and \<open>c2\<close> the cache
  after a following \<open>set(key, v2)\<close>, no entry of \<open>c1\<close> being expired at the second call.
  The second call never raises the entry count and lowers it by at most one; it leaves
  the count as it was after the first call when that count is below \<open>capacity\<close>; and
  \<open>get(key)\<close> before the expiry of the new entry returns \<open>v2\<close>.
\<close>

theorem overwrite_keeps_count_below_capacity:
  assumes "wf_cache c" and "c1 = set_op tp1 ti1 key v1 c" and "c2 = set_op tp2 ti2 key v2 c1"
    and "\<forall>p \<in> set (cacheRef c1). tp2 < expiresAt (snd p)"
  shows "length (cacheRef c2) \<le> length (cacheRef c1) \<and>
         length (cacheRef c1) \<le> length (cacheRef c2) + 1 \<and>
         (int (length (cacheRef c1)) < capacity c \<longrightarrow> length (cacheRef c2) = length (cacheRef c1)) \<and>
         (now < ti2 + ttlMs c \<longrightarrow> get_op now key c2 = (Some v2, c2))"
proof -
  let ?k = "getCacheKey key"
  let ?E = "evictEntryIfOverCapacity c1"
  have wf1: "wf_cache c1" using assms(1,2) by (simp add: wf_set_op)
  have mem: "?k \<in> fst ` set (cacheRef c1)"
    unfolding assms(2) cacheRef_set_op dom_update by simp
  have c2: "cacheRef c2 = AList.update ?k \<lparr> val = v2, expiresAt = ti2 + ttlMs c \<rparr> (cacheRef ?E)"
    unfolding assms(3) cacheRef_set_op prune_all_live [OF assms(4)] by (simp add: assms(2))
  have len: "length (cacheRef c2) \<le> length (cacheRef c1) \<and>
             length (cacheRef c1) \<le> length (cacheRef c2) + 1"
    using evict_cases [OF wf1]
  proof
    assume "?E = c1"
    with mem show ?thesis unfolding c2 by (simp add: length_update)
  next
    assume "\<exists>k e. (k, e) \<in> set (cacheRef c1) \<and> ?E = c1\<lparr> cacheRef := AList.delete k (cacheRef c1) \<rparr>"
    then obtain k e where ke: "(k, e) \<in> set (cacheRef c1)"
      and E: "?E = c1\<lparr> cacheRef := AList.delete k (cacheRef c1) \<rparr>" by blast
    from wf1 have "distinct (map fst (cacheRef c1))" by (simp add: wf_cache_def)
    from length_delete_distinct [OF this ke]
    have "length (AList.delete k (cacheRef c1)) + 1 = length (cacheRef c1)" .
    then show ?thesis
      unfolding c2 E by (simp add: length_update)
  qed
  have below: "length (cacheRef c2) = length (cacheRef c1)" if "int (length (cacheRef c1)) < capacity c"
  proof -
    from that have "int (length (cacheRef c1)) < capacity c1" by (simp add: assms(2))
    then have "?E = c1" by (rule evict_below)
    with mem show ?thesis unfolding c2 by (simp add: length_update)
  qed
  have rd: "get_op now key c2 = (Some v2, c2)" if "now < ti2 + ttlMs c"
    using that get_op_live [where c = c2 and key = key and now = now
        and e = "\<lparr> val = v2, expiresAt = ti2 + ttlMs c \<rparr>"]
    by (simp add: c2 update_conv')
  from len below rd show ?thesis by blast
qed

theorem overwrite_keeps_count_below_capacity_witness:
  "wf_cache (useCache \<lparr> ttlMs_opt = None, capacity_opt = None \<rparr> :: int Cache) \<and>
   list_all (\<lambda>p. 10 < expiresAt (snd p))
     (cacheRef (set_op 0 0 (JStr ''k'') (1 :: int) (useCache \<lparr> ttlMs_opt = None, capacity_opt = None \<rparr>))) \<and>
   int (length (cacheRef (set_op 0 0 (JStr ''k'') (1 :: int)
     (useCache \<lparr> ttlMs_opt = None, capacity_opt = None \<rparr>))))
     < capacity (useCache \<lparr> ttlMs_opt = None, capacity_opt = None \<rparr> :: int Cache) \<and>
   length (cacheRef (set_op 10 10 (JStr ''k'') 2 (set_op 0 0 (JStr ''k'') (1 :: int)
     (useCache \<lparr> ttlMs_opt = None, capacity_opt = None \<rparr>)))) =
   length (cacheRef (set_op 0 0 (JStr ''k'') (1 :: int)
     (useCache \<lparr> ttlMs_opt = None, capacity_opt = None \<rparr>))) \<and>
   fst (get_op 20 (JStr ''k'') (set_op 10 10 (JStr ''k'') 2 (set_op 0 0 (JStr ''k'') (1 :: int)
     (useCache \<lparr> ttlMs_opt = None, capacity_opt = None \<rparr>)))) = Some 2"
  using overwrite_keeps_count_below_capacity [where
      c = "useCache \<lparr> ttlMs_opt = None, capacity_opt = None \<rparr> :: int Cache"
      and key = "JStr ''k''" and ?v1.0 = 1 and ?v2.0 = 2 and ?tp1.0 = 0 and ?ti1.0 = 0
      and ?tp2.0 = 10 and ?ti2.0 = 10 and now = 20, OF _ refl refl]
  by (simp add: eval_defs wf_cache_def)

text \<open>
  The claim as the specification words it compares with the count before the first
  call: on an empty cache the two calls leave one entry where there was none.
\<close>

theorem overwrite_count_counterexample:
  "length (cacheRef (set_op 0 0 (JStr ''k'') 2 (set_op 0 0 (JStr ''k'') (1 :: int)
     (useCache \<lparr> ttlMs_opt = None, capacity_opt = None \<rparr>)))) = 1 \<and>
   length (cacheRef (useCache \<lparr> ttlMs_opt = None, capacity_opt = None \<rparr> :: int Cache)) = 0"
  by (simp add: eval_defs)

section \<open>A capacity that is not positive\<close>

lemma prune_small:
  assumes "length (cacheRef c) \<le> 1" and "\<forall>p \<in> set (cacheRef c). truthy (Some (fst p))"
  shows "length (cacheRef (pruneExpiredEntries t c)) \<le> 1 \<and>
         (\<forall>p \<in> set (cacheRef (pruneExpiredEntries t c)). truthy (Some (fst p)))"
proof -
  have "length (filter Q (cacheRef c)) \<le> 1" for Q
    using assms(1) length_filter_le [of Q "cacheRef c"] by linarith
  with assms(2) show ?thesis
    by (simp add: pruneExpiredEntries_def prune_loop_filter)
qed

lemma evict_small:
  assumes "capacity c \<le> 0" and "length (cacheRef c) \<le> 1"
    and "\<forall>p \<in> set (cacheRef c). truthy (Some (fst p))"
  shows "cacheRef (evictEntryIfOverCapacity c) = []"
proof (cases "cacheRef c")
  case Nil
  then show ?thesis by (simp add: evict_empty)
next
  case (Cons x xs)
  with assms(2) have xs: "xs = []" by simp
  obtain k e where x: "x = (k, e)" by (cases x)
  from assms(3) Cons have "truthy (Some k)" unfolding x by simp
  with assms(1) show ?thesis
    unfolding evictEntryIfOverCapacity_def Cons xs x
    by (simp add: lt_expiry_def)
qed

lemma set_small:
  assumes "capacity c \<le> 0" and "length (cacheRef c) \<le> 1"
    and "\<forall>p \<in> set (cacheRef c). truthy (Some (fst p))"
  shows "cacheRef (evictEntryIfOverCapacity (pruneExpiredEntries tp c)) = [] \<and>
         cacheRef (set_op tp ti key v c) =
           [(getCacheKey key, \<lparr> val = v, expiresAt = ti + ttlMs c \<rparr>)]"
proof -
  have "cacheRef (evictEntryIfOverCapacity (pruneExpiredEntries tp c)) = []"
    using prune_small [OF assms(2,3), of tp] assms(1)
    by (intro evict_small) simp_all
  then show ?thesis by (simp add: cacheRef_set_op)
qed

lemma step_small:
  assumes "capacity c \<le> 0" and "length (cacheRef c) \<le> 1"
    and "\<forall>p \<in> set (cacheRef c). truthy (Some (fst p))" and "string_keyed x"
  shows "length (cacheRef (step x c)) \<le> 1 \<and>
         (\<forall>p \<in> set (cacheRef (step x c)). truthy (Some (fst p)))"
proof (cases x)
  case (Get key now)
  have "length (filter Q (cacheRef c)) \<le> 1" for Q
    using assms(2) length_filter_le [of Q "cacheRef c"] by linarith
  with assms(2,3) show ?thesis
    unfolding Get by (simp add: get_op_def Let_def AList.delete_eq split: option.splits)
next
  case (Set key v tp ti)
  with assms(4) set_small [OF assms(1-3), of tp ti key v] show ?thesis by simp
next
  case Clear
  then show ?thesis by (simp add: clear_op_def)
qed

lemma run_small:
  assumes "capacity c \<le> 0" and "length (cacheRef c) \<le> 1"
    and "\<forall>p \<in> set (cacheRef c). truthy (Some (fst p))" and "\<forall>x \<in> set xs. string_keyed x"
  shows "length (cacheRef (run xs c)) \<le> 1 \<and>
         (\<forall>p \<in> set (cacheRef (run xs c)). truthy (Some (fst p)))"
  using assms
proof (induction xs arbitrary: c)
  case Nil
  then show ?case by simp
next
  case (Cons x xs)
  from Cons.prems have sk: "string_keyed x" and rest: "\<forall>y \<in> set xs. string_keyed y" by simp_all
  have cap: "capacity (step x c) \<le> 0" using Cons.prems(1) by simp
  from step_small [OF Cons.prems(1-3) sk]
  have "length (cacheRef (step x c)) \<le> 1" and "\<forall>p \<in> set (cacheRef (step x c)). truthy (Some (fst p))"
    by simp_all
  from Cons.IH [OF cap this rest] show ?case by simp
qed

text \<open>
  C10.  A cache constructed with \<open>capacity \<le> 0\<close>, driven by any sequence of calls on keys
  whose canonical form is a non-empty string, holds at most one entry after every call
  (\<open>s\<close> is the state after any number \<open>n\<close> of the calls).  In a \<open>set\<close> on such a state the
  entry count after pruning (\<open>P\<close>) is never below \<open>capacity\<close>, so the eviction step runs;
  it deletes one entry whenever the map is not empty, which leaves the map empty before
  the one insertion, and the \<open>set\<close> ends with exactly one entry.
\<close>

theorem nonpositive_capacity_holds_one_entry:
  fixes ops :: "'v call list"
  assumes "capacity (useCache config :: 'v Cache) \<le> 0" and "\<forall>x \<in> set ops. string_keyed x"
    and "s = run (take n ops) (useCache config)" and "P = pruneExpiredEntries tp s"
  shows "length (cacheRef s) \<le> 1 \<and>
         capacity s \<le> int (length (cacheRef P)) \<and>
         (cacheRef P \<noteq> [] \<longrightarrow>
            length (cacheRef (evictEntryIfOverCapacity P)) + 1 = length (cacheRef P)) \<and>
         cacheRef (evictEntryIfOverCapacity P) = [] \<and>
         length (cacheRef (set_op tp ti key v s)) = 1"
proof -
  have e: "cacheRef (useCache config :: 'v Cache) = []" by (simp add: useCache_def)
  have "\<forall>x \<in> set (take n ops). string_keyed x"
    using assms(2) by (meson in_set_takeD)
  from run_small [where c = "useCache config" and xs = "take n ops", OF assms(1) _ _ this] e
  have small: "length (cacheRef s) \<le> 1" "\<forall>p \<in> set (cacheRef s). truthy (Some (fst p))"
    unfolding assms(3) by simp_all
  have cap: "capacity s \<le> 0" using assms(1,3) by simp
  then have fires: "capacity s \<le> int (length (cacheRef P))" by simp
  have lenP: "length (cacheRef P) \<le> 1"
    unfolding assms(4) using prune_small [OF small, of tp] by simp
  have empty: "cacheRef (evictEntryIfOverCapacity P) = []"
    unfolding assms(4) using set_small [OF cap small, of tp ti key v] by simp
  have one: "length (cacheRef (evictEntryIfOverCapacity P)) + 1 = length (cacheRef P)"
    if "cacheRef P \<noteq> []"
  proof -
    from that have "0 < length (cacheRef P)" by simp
    with lenP have "length (cacheRef P) = 1" by linarith
    then show ?thesis unfolding empty by simp
  qed
  from set_small [OF cap small, of tp ti key v] small(1) fires one empty show ?thesis by simp
qed

theorem nonpositive_capacity_holds_one_entry_witness:
  "capacity (useCache \<lparr> ttlMs_opt = None, capacity_opt = Some 0 \<rparr> :: int Cache) \<le> 0 \<and>
   list_all string_keyed [Set (JStr ''a'') (1 :: int) 0 0, Get (JStr ''a'') 1, Set (JStr ''b'') 2 2 2] \<and>
   length (cacheRef (run [Set (JStr ''a'') (1 :: int) 0 0, Get (JStr ''a'') 1, Set (JStr ''b'') 2 2 2]
     (useCache \<lparr> ttlMs_opt = None, capacity_opt = Some 0 \<rparr>))) \<le> 1 \<and>
   length (cacheRef (pruneExpiredEntries 3
     (run [Set (JStr ''a'') (1 :: int) 0 0, Get (JStr ''a'') 1, Set (JStr ''b'') 2 2 2]
       (useCache \<lparr> ttlMs_opt = None, capacity_opt = Some 0 \<rparr>)))) = 1 \<and>
   cacheRef (evictEntryIfOverCapacity (pruneExpiredEntries 3
     (run [Set (JStr ''a'') (1 :: int) 0 0, Get (JStr ''a'') 1, Set (JStr ''b'') 2 2 2]
       (useCache \<lparr> ttlMs_opt = None, capacity_opt = Some 0 \<rparr>)))) = [] \<and>
   length (cacheRef (set_op 3 3 (JStr ''c'') 3
     (run [Set (JStr ''a'') (1 :: int) 0 0, Get (JStr ''a'') 1, Set (JStr ''b'') 2 2 2]
       (useCache \<lparr> ttlMs_opt = None, capacity_opt = Some 0 \<rparr>)))) = 1"
  using nonpositive_capacity_holds_one_entry [where
      config = "\<lparr> ttlMs_opt = None, capacity_opt = Some 0 \<rparr>"
      and ops = "[Set (JStr ''a'') (1 :: int) 0 0, Get (JStr ''a'') 1, Set (JStr ''b'') 2 2 2]"
      and n = 3 and tp = 3 and ti = 3 and key = "JStr ''c''" and v = 3, OF _ _ refl refl]
  by (simp add: eval_defs)




section \<open>Keys that the cache mistreats\<close>

text \<open>
  Where the capacity does bound the cache: with \<open>capacity \<ge> 1\<close>, from a state within the
  bound whose keys are non-empty strings, calls on keys whose canonical form is a
  non-empty string keep the entry count at most \<open>capacity\<close>.
\<close>

lemma set_bounded:
  assumes wf: "wf_cache c" and cap: "1 \<le> capacity c"
    and len: "int (length (cacheRef c)) \<le> capacity c"
    and keys: "\<forall>p \<in> set (cacheRef c). truthy (Some (fst p))"
    and key: "truthy (Some (getCacheKey key))"
  shows "int (length (cacheRef (set_op tp ti key v c))) \<le> capacity c \<and>
         (\<forall>p \<in> set (cacheRef (set_op tp ti key v c)). truthy (Some (fst p)))"
proof -
  let ?P = "pruneExpiredEntries tp c"
  let ?E = "evictEntryIfOverCapacity ?P"
  have wfP: "wf_cache ?P" using wf by (rule wf_prune)
  have P: "cacheRef ?P = filter (\<lambda>p. tp < expiresAt (snd p)) (cacheRef c)"
    using wf by (rule cacheRef_prune)
  have lenP: "int (length (cacheRef ?P)) \<le> capacity c"
    unfolding P using len length_filter_le [of "\<lambda>p. tp < expiresAt (snd p)" "cacheRef c"] by linarith
  have keysP: "\<forall>p \<in> set (cacheRef ?P). truthy (Some (fst p))"
    unfolding P using keys by simp
  have E: "int (length (cacheRef ?E)) < capacity c \<and> set (cacheRef ?E) \<subseteq> set (cacheRef ?P)"
  proof (cases "int (length (cacheRef ?P)) < capacity c")
    case True
    then have "?E = ?P" by (intro evict_below) simp
    with True show ?thesis by simp
  next
    case False
    with cap have ne: "cacheRef ?P \<noteq> []" by auto
    then obtain k e where s: "soonest_entry (cacheRef ?P) = Some (k, e)"
      using soonest_entry_exists by blast
    then have mem: "(k, e) \<in> set (cacheRef ?P)"
      using soonest_entry_Some by blast
    with keysP have t: "truthy (Some k)" by force
    from False have "capacity ?P \<le> int (length (cacheRef ?P))" by simp
    from evict_full [OF this s t] have d: "cacheRef ?E = AList.delete k (cacheRef ?P)" by simp
    from wfP have "distinct (map fst (cacheRef ?P))" by (simp add: wf_cache_def)
    from length_delete_distinct [OF this mem] lenP
    have "int (length (cacheRef ?E)) < capacity c" unfolding d by linarith
    moreover have "set (cacheRef ?E) \<subseteq> set (cacheRef ?P)"
      unfolding d AList.delete_eq by auto
    ultimately show ?thesis by simp
  qed
  have "length (AList.update k e xs) \<le> length xs + 1" for k and e :: "'a CacheEntry" and xs
    by (simp add: length_update)
  from this [of "getCacheKey key" "\<lparr> val = v, expiresAt = ti + ttlMs c \<rparr>" "cacheRef ?E"] E
  have "int (length (cacheRef (set_op tp ti key v c))) \<le> capacity c"
    unfolding cacheRef_set_op by linarith
  moreover have "\<forall>p \<in> set (cacheRef (set_op tp ti key v c)). truthy (Some (fst p))"
  proof
    fix p assume "p \<in> set (cacheRef (set_op tp ti key v c))"
    then have "fst p \<in> fst ` set (cacheRef (set_op tp ti key v c))" by simp
    then have "fst p = getCacheKey key \<or> fst p \<in> fst ` set (cacheRef ?E)"
      unfolding cacheRef_set_op dom_update by simp
    with key keysP E show "truthy (Some (fst p))" by fastforce
  qed
  ultimately show ?thesis by simp
qed

lemma step_bounded:
  assumes "wf_cache c" and "1 \<le> capacity c"
    and "int (length (cacheRef c)) \<le> capacity c"
    and "\<forall>p \<in> set (cacheRef c). truthy (Some (fst p))"
    and "string_keyed x"
  shows "int (length (cacheRef (step x c))) \<le> capacity c \<and>
         (\<forall>p \<in> set (cacheRef (step x c)). truthy (Some (fst p)))"
proof (cases x)
  case (Get key now)
  have "int (length (filter Q (cacheRef c))) \<le> capacity c" for Q
    using assms(3) length_filter_le [of Q "cacheRef c"] by linarith
  with assms(3,4) show ?thesis
    unfolding Get by (simp add: get_op_def Let_def AList.delete_eq split: option.splits)
next
  case (Set key v tp ti)
  with assms(5) set_bounded [OF assms(1-4), of key tp ti v] show ?thesis by simp
next
  case Clear
  with assms(2) show ?thesis by (simp add: clear_op_def)
qed

lemma capacity_bound_string_keys:
  assumes "wf_cache c" and "1 \<le> capacity c"
    and "int (length (cacheRef c)) \<le> capacity c"
    and "\<forall>p \<in> set (cacheRef c). truthy (Some (fst p))"
    and "\<forall>x \<in> set xs. string_keyed x"
  shows "int (length (cacheRef (run xs c))) \<le> capacity c"
  using assms
proof (induction xs arbitrary: c)
  case Nil
  then show ?case by simp
next
  case (Cons x xs)
  from Cons.prems have sk: "string_keyed x" and rest: "\<forall>y \<in> set xs. string_keyed y" by simp_all
  from step_bounded [OF Cons.prems(1-4) sk]
  have "int (length (cacheRef (step x c))) \<le> capacity (step x c)"
    and "\<forall>p \<in> set (cacheRef (step x c)). truthy (Some (fst p))"
    by simp_all
  moreover have "wf_cache (step x c)" using Cons.prems(1) by (rule wf_step)
  moreover have "1 \<le> capacity (step x c)" using Cons.prems(2) by simp
  ultimately have "int (length (cacheRef (run xs (step x c)))) \<le> capacity (step x c)"
    using rest by (intro Cons.IH)
  then show ?case by simp
qed

text \<open>
  C1.  The bound \<open>size \<le> capacity\<close> after a \<open>set\<close> fails on the code: a key that
  \<^verbatim>\<open>JSON.stringify\<close> maps to \<^verbatim>\<open>undefined\<close> is stored under the map key \<^verbatim>\<open>undefined\<close>, and when
  the eviction scan picks it, the test \<^verbatim>\<open>if (soonestKey)\<close> is false and nothing is
  deleted.  With capacity 1, \<^verbatim>\<open>set(undefined, 1)\<close> and then \<^verbatim>\<open>set("a", 2)\<close> leave two entries.
\<close>

theorem capacity_exceeded_by_undefined_key:
  "capacity (useCache \<lparr> ttlMs_opt = None, capacity_opt = Some 1 \<rparr> :: int Cache) = 1 \<and>
   length (cacheRef (run [Set JUndefined 1 0 0, Set (JStr ''a'') 2 0 0]
     (useCache \<lparr> ttlMs_opt = None, capacity_opt = Some 1 \<rparr> :: int Cache))) = 2"
  by (simp add: eval_defs)

text \<open>
  C8.  Canonicalisation does not respect semantic equality of keys: the objects
  \<^verbatim>\<open>{a: 1, b: 2}\<close> and \<^verbatim>\<open>{b: 2, a: 1}\<close> have the same fields and values, their canonical
  forms differ, and a value set under the first is not found under the second.
\<close>

theorem property_order_changes_canonical_key:
  \<open>sem_eq (JObj [(''a'', JNum 1), (''b'', JNum 2)]) (JObj [(''b'', JNum 2), (''a'', JNum 1)]) \<and>
   getCacheKey (JObj [(''a'', JNum 1), (''b'', JNum 2)]) = Some ''{"a":1,"b":2}'' \<and>
   getCacheKey (JObj [(''b'', JNum 2), (''a'', JNum 1)]) = Some ''{"b":2,"a":1}'' \<and>
   fst (get_op 0 (JObj [(''b'', JNum 2), (''a'', JNum 1)])
     (set_op 0 0 (JObj [(''a'', JNum 1), (''b'', JNum 2)]) (7 :: int)
        (useCache \<lparr> ttlMs_opt = None, capacity_opt = None \<rparr>))) = None\<close>
  by (simp add: eval_defs)

end
